theory Spec2Isabelle
  imports Main "HOL-Library.Word"
begin

section \<open>Strings and paths\<close>

text \<open>
  JavaScript strings are modelled as HOL strings. \<open>String.prototype.indexOf\<close> returns
  \<open>-1\<close> when the character does not occur; the model returns \<open>None\<close> there.
\<close>

type_synonym path = string

definition indexOf :: "string \<Rightarrow> char \<Rightarrow> nat option" where
  "indexOf s c = (if c \<in> set s then Some (length (takeWhile (\<lambda>x. x \<noteq> c) s)) else None)"

text \<open>
  The decimal rendering of a number inside a template literal
  (\<open>`${basename}${process.pid}`\<close>).
\<close>

fun decimal :: "nat \<Rightarrow> string" where
  "decimal n = (if n < 10 then [''0123456789'' ! n]
                else decimal (n div 10) @ [''0123456789'' ! (n mod 10)])"

declare decimal.simps [simp del]

subsection \<open>The POSIX flavour of Node's path module\<close>

text \<open>
  \<open>path.basename\<close>, \<open>path.dirname\<close> and \<open>path.join\<close> belong to the Node runtime, not to
  the repository. They are modelled after the POSIX implementation of Node: a path is
  cut into segments at \<open>/\<close>, empty and \<open>.\<close> segments are dropped, and \<open>..\<close> removes the
  segment before it.
\<close>

definition isPathSeparator :: "char \<Rightarrow> bool" where
  "isPathSeparator c = (c = CHR ''/'')"

fun segments :: "string \<Rightarrow> string list" where
  "segments [] = [[]]"
| "segments (c # cs) =
     (if isPathSeparator c then [] # segments cs
      else (c # hd (segments cs)) # tl (segments cs))"

fun joinSegments :: "string list \<Rightarrow> string" where
  "joinSegments [] = []"
| "joinSegments [s] = s"
| "joinSegments (s # t # ss) = s @ ''/'' @ joinSegments (t # ss)"

fun normalizeSegments :: "bool \<Rightarrow> string list \<Rightarrow> string list \<Rightarrow> string list" where
  "normalizeSegments allowAboveRoot res [] = res"
| "normalizeSegments allowAboveRoot res (seg # segs) =
     normalizeSegments allowAboveRoot
       (if seg = [] \<or> seg = ''.'' then res
        else if seg = ''..'' then
          (if res \<noteq> [] \<and> last res \<noteq> ''..'' then butlast res
           else if allowAboveRoot then res @ [''..'']
           else res)
        else res @ [seg])
       segs"

definition path_normalize :: "path \<Rightarrow> path" where
  "path_normalize p =
     (if p = [] then ''.''
      else
        let isAbsolute = isPathSeparator (hd p);
            trailingSeparator = isPathSeparator (last p);
            res = joinSegments (normalizeSegments (\<not> isAbsolute) [] (segments p))
        in if res = [] then (if isAbsolute then ''/'' else if trailingSeparator then ''./'' else ''.'')
           else (if isAbsolute then ''/'' else []) @ res @ (if trailingSeparator then ''/'' else []))"

definition path_join :: "path \<Rightarrow> path \<Rightarrow> path" where
  "path_join a b =
     (let joined = (if a = [] then b else if b = [] then a else a @ ''/'' @ b)
      in if joined = [] then ''.'' else path_normalize joined)"

definition path_basename :: "path \<Rightarrow> string" where
  "path_basename p =
     rev (takeWhile (\<lambda>c. \<not> isPathSeparator c) (dropWhile isPathSeparator (rev p)))"

definition path_dirname :: "path \<Rightarrow> path" where
  "path_dirname p =
     (if p = [] then ''.''
      else
        let hasRoot = isPathSeparator (hd p);
            r = dropWhile (\<lambda>c. \<not> isPathSeparator c) (dropWhile isPathSeparator (rev (tl p)));
            end = length r
        in if r = [] then (if hasRoot then ''/'' else ''.'')
           else if hasRoot \<and> end = 1 then ''//''
           else take end p)"

section \<open>Temporary file names\<close>

text \<open>\<open>removeSuffix\<close> and \<open>pathTemp\<close> of \<open>writeBufferToCafs.ts\<close>; the process id is a parameter.\<close>

definition removeSuffix :: "string \<Rightarrow> string" where
  "removeSuffix filePath =
     (case indexOf filePath CHR ''-'' of
        None \<Rightarrow> filePath
      | Some dashPosition \<Rightarrow>
          let withoutSuffix = take dashPosition filePath
          in if drop dashPosition filePath = ''-exec'' then withoutSuffix @ ''x''
             else withoutSuffix)"

definition pathTemp :: "nat \<Rightarrow> path \<Rightarrow> path" where
  "pathTemp pid file =
     (let basename = removeSuffix (path_basename file)
      in path_join (path_dirname file) (basename @ decimal pid))"

section \<open>The outside world\<close>

text \<open>
  Everything \<open>writeBufferToCafs.ts\<close> calls but does not define is an answer of the
  outside world: \<open>fs.stat\<close>, \<open>existsSync\<close> and \<open>Date.now\<close> of the Node runtime,
  \<open>renameOverwrite\<close> of the package \<open>rename-overwrite\<close>, and \<open>verifyFileIntegrity\<close>
  and \<open>writeFile\<close> of the sibling modules \<open>checkPkgFilesIntegrity\<close> and \<open>writeFile\<close>.
  A \<open>world\<close> holds the answer each of them gives at one moment: \<open>Inl err\<close> is a
  rejected promise (or a thrown exception), \<open>Inr v\<close> a fulfilled one. The world is not
  required to be a consistent file system, so other processes may interfere freely.
\<close>

type_synonym buffer = "8 word list"
type_synonym integrity = string

datatype error = Error (code: "string option") (message: string)

datatype stats = Stats (st_size: nat)

record world =
  stat :: "path \<Rightarrow> error + stats"
  verifyFileIntegrity :: "path \<Rightarrow> nat \<Rightarrow> integrity \<Rightarrow> error + bool"
  writeFile :: "path \<Rightarrow> buffer \<Rightarrow> nat option \<Rightarrow> error + unit"
  renameOverwrite :: "path \<Rightarrow> path \<Rightarrow> error + unit"
  existsSync :: "path \<Rightarrow> bool"
  now :: int

text \<open>The calls made to the outside world are logged, in the order they are made.\<close>

datatype event =
    Stat path
  | VerifyFileIntegrity path nat integrity
  | WriteFile path buffer "nat option"
  | DateNow int
  | RenameOverwrite path path
  | ExistsSync path

section \<open>The asynchronous functions\<close>

text \<open>
  An \<open>async\<close> function runs without interruption up to its next \<open>await\<close>, where it is
  suspended until the awaited operation settles. A suspended function is its \<open>frame\<close>:
  the \<open>await\<close> it stopped at and the local variables that are live there.
  \<^item> \<open>AwaitStat\<close>: line 93, \<open>await fs.stat(filename)\<close> inside \<open>existsSame\<close>;
  \<^item> \<open>AwaitVerify\<close>: line 97, \<open>existsSame\<close> has returned the promise of
    \<open>verifyFileIntegrity\<close>, which line 26 awaits;
  \<^item> \<open>AwaitWriteFile temp\<close>: line 39, \<open>await writeFile(temp, buffer, mode)\<close>;
  \<^item> \<open>AwaitRename temp birthtimeMs\<close>: line 53, \<open>await renameOverwrite(temp, fileDest)\<close>
    inside \<open>optimisticRenameOverwrite\<close>, called from line 44.
\<close>

datatype frame =
    AwaitStat
  | AwaitVerify path nat integrity
  | AwaitWriteFile path
  | AwaitRename path int

record task =
  t_fileDest :: path
  t_buffer :: buffer
  t_mode :: "nat option"
  t_integrity :: integrity
  t_frame :: frame

text \<open>
  A promise of the anonymous \<open>async\<close> function of lines 20 to 46 is pending exactly while
  that function is suspended; it is settled once, with the returned number or the thrown
  error.
\<close>

datatype promise = Pending task | Fulfilled int | Rejected error

text \<open>
  \<open>optimisticRenameOverwrite\<close>, lines 51 to 68, from the moment \<open>renameOverwrite\<close>
  settles, in the world of that moment. The result comes with the calls made in the
  \<open>catch\<close> block: \<open>existsSync\<close> is only evaluated when the code is \<open>ENOENT\<close>.
\<close>

definition optimisticRenameOverwrite :: "world \<Rightarrow> path \<Rightarrow> path \<Rightarrow> (error + unit) \<times> event list" where
  "optimisticRenameOverwrite w temp fileDest =
     (case renameOverwrite w temp fileDest of
        Inr _ \<Rightarrow> (Inr (), [])
      | Inl err \<Rightarrow>
          if code err \<noteq> Some ''ENOENT'' then (Inl err, [])
          else if \<not> existsSync w fileDest then (Inl err, [ExistsSync fileDest])
          else (Inr (), [ExistsSync fileDest]))"

text \<open>
  \<open>existsSame\<close>, lines 90 to 101, from the moment \<open>fs.stat\<close> settles. The \<open>catch\<close>
  block returns \<open>false\<close>; otherwise the function returns what
  \<open>verifyFileIntegrity(filename, {size, integrity})\<close> returns.
\<close>

datatype existsSame_result = Return bool | ReturnVerifyFileIntegrity path nat integrity

definition existsSame :: "world \<Rightarrow> path \<Rightarrow> integrity \<Rightarrow> existsSame_result" where
  "existsSame w filename integ =
     (case stat w filename of
        Inl err \<Rightarrow> Return False
      | Inr existingFile \<Rightarrow> ReturnVerifyFileIntegrity filename (st_size existingFile) integ)"

text \<open>
  Lines 26 to 39, once \<open>await existsSame(fileDest, integrity)\<close> has its value: return
  \<open>Date.now()\<close>, or compute the temporary name and start \<open>writeFile\<close>.
\<close>

definition afterExistsSame :: "nat \<Rightarrow> world \<Rightarrow> task \<Rightarrow> bool \<Rightarrow> event list \<times> promise" where
  "afterExistsSame pid w t same =
     (if same then ([DateNow (now w)], Fulfilled (now w))
      else
        let temp = pathTemp pid (t_fileDest t)
        in ([WriteFile temp (t_buffer t) (t_mode t)], Pending (t\<lparr>t_frame := AwaitWriteFile temp\<rparr>)))"

text \<open>
  One uninterrupted run of the anonymous function: the awaited operation settles in
  world \<open>w\<close>, and the function runs to its next \<open>await\<close>, to a \<open>return\<close> or to an
  exception that nothing catches.
\<close>

definition resumeTask :: "nat \<Rightarrow> world \<Rightarrow> task \<Rightarrow> event list \<times> promise" where
  "resumeTask pid w t =
     (case t_frame t of
        AwaitStat \<Rightarrow>
          (case existsSame w (t_fileDest t) (t_integrity t) of
             Return same \<Rightarrow> afterExistsSame pid w t same
           | ReturnVerifyFileIntegrity filename sz integ \<Rightarrow>
               ([VerifyFileIntegrity filename sz integ],
                Pending (t\<lparr>t_frame := AwaitVerify filename sz integ\<rparr>)))
      | AwaitVerify filename sz integ \<Rightarrow>
          (case verifyFileIntegrity w filename sz integ of
             Inl err \<Rightarrow> ([], Rejected err)
           | Inr same \<Rightarrow> afterExistsSame pid w t same)
      | AwaitWriteFile temp \<Rightarrow>
          (case writeFile w temp (t_buffer t) (t_mode t) of
             Inl err \<Rightarrow> ([], Rejected err)
           | Inr _ \<Rightarrow>
               let birthtimeMs = now w
               in ([DateNow birthtimeMs, RenameOverwrite temp (t_fileDest t)],
                   Pending (t\<lparr>t_frame := AwaitRename temp birthtimeMs\<rparr>)))
      | AwaitRename temp birthtimeMs \<Rightarrow>
          (case optimisticRenameOverwrite w temp (t_fileDest t) of
             (Inl err, evs) \<Rightarrow> (evs, Rejected err)
           | (Inr _, evs) \<Rightarrow> (evs, Fulfilled birthtimeMs)))"

section \<open>The session\<close>

text \<open>
  The \<open>locker\<close> is the \<open>Map\<close> the caller passes in; its values are promises, which are
  objects, so the map holds their addresses in the store \<open>promises\<close>. Every event of the
  trace is tagged with the destination on whose behalf the call was made.
\<close>

record session =
  locker :: "path \<rightharpoonup> nat"
  promises :: "promise list"
  trace :: "(path \<times> event) list"

definition newSession :: session where
  "newSession = \<lparr>locker = Map.empty, promises = [], trace = []\<rparr>"

text \<open>
  \<open>writeBufferToCafs\<close>, lines 8 to 49: the part that runs before the function returns
  to its caller. The anonymous function is started at line 20 and runs up to
  \<open>await fs.stat\<close>; nothing is awaited between \<open>locker.has\<close> and \<open>locker.set\<close>.
  The result is the promise handed to the caller: the promise that the \<open>async\<close>
  keyword wraps around it settles exactly as this one does.
\<close>

definition writeBufferToCafs ::
    "session \<Rightarrow> path \<Rightarrow> buffer \<Rightarrow> path \<Rightarrow> nat option \<Rightarrow> integrity \<Rightarrow> nat \<times> session" where
  "writeBufferToCafs s cafsDir buf fileDest0 md integ =
     (let fileDest = path_join cafsDir fileDest0
      in case locker s fileDest of
           Some p \<Rightarrow> (p, s)
         | None \<Rightarrow>
             let p = length (promises s);
                 t = \<lparr>t_fileDest = fileDest, t_buffer = buf, t_mode = md,
                      t_integrity = integ, t_frame = AwaitStat\<rparr>
             in (p, s\<lparr>locker := (locker s)(fileDest \<mapsto> p),
                      promises := promises s @ [Pending t],
                      trace := trace s @ [(fileDest, Stat fileDest)]\<rparr>))"

text \<open>
  The event loop resumes the suspended function behind promise \<open>p\<close>; a settled promise
  has nothing left to run.
\<close>

definition resume :: "nat \<Rightarrow> world \<Rightarrow> nat \<Rightarrow> session \<Rightarrow> session" where
  "resume pid w p s =
     (if p < length (promises s) then
        (case promises s ! p of
           Pending t \<Rightarrow>
             (case resumeTask pid w t of
                (evs, pr) \<Rightarrow>
                  s\<lparr>promises := (promises s)[p := pr],
                    trace := trace s @ map (Pair (t_fileDest t)) evs\<rparr>)
         | Fulfilled _ \<Rightarrow> s
         | Rejected _ \<Rightarrow> s)
      else s)"

text \<open>
  The time of a call is what \<open>Date.now()\<close> reads in the world in which the call is
  made. \<open>writeBufferToCafs\<close> does not read the clock before its first \<open>await\<close>, so
  the time of the call is paired with its result and has no part in it.
\<close>

definition callAt ::
    "world \<Rightarrow> session \<Rightarrow> path \<Rightarrow> buffer \<Rightarrow> path \<Rightarrow> nat option \<Rightarrow> integrity
      \<Rightarrow> int \<times> nat \<times> session" where
  "callAt w s cafsDir buf fileDest md integ =
     (now w, writeBufferToCafs s cafsDir buf fileDest md integ)"

text \<open>
  A schedule is any sequence of calls of \<open>writeBufferToCafs\<close> and of resumptions, each
  resumption with the world of its moment. \<open>answers\<close> lists, for every call, the absolute
  destination and the promise the caller got.
\<close>

datatype action =
    Call path buffer path "nat option" integrity
  | Resume world nat

fun step :: "nat \<Rightarrow> action \<Rightarrow> session \<Rightarrow> session" where
  "step pid (Call cafsDir buf fileDest md integ) s = snd (writeBufferToCafs s cafsDir buf fileDest md integ)"
| "step pid (Resume w p) s = resume pid w p s"

fun run :: "nat \<Rightarrow> action list \<Rightarrow> session \<Rightarrow> session" where
  "run pid [] s = s"
| "run pid (a # as) s = run pid as (step pid a s)"

fun answer :: "action \<Rightarrow> session \<Rightarrow> (path \<times> nat) list" where
  "answer (Call cafsDir buf fileDest md integ) s =
     [(path_join cafsDir fileDest, fst (writeBufferToCafs s cafsDir buf fileDest md integ))]"
| "answer (Resume w p) s = []"

fun answers :: "nat \<Rightarrow> action list \<Rightarrow> session \<Rightarrow> (path \<times> nat) list" where
  "answers pid [] s = []"
| "answers pid (a # as) s = answer a s @ answers pid as (step pid a s)"

fun isWriteFile :: "event \<Rightarrow> bool" where
  "isWriteFile (WriteFile temp buf md) = True"
| "isWriteFile _ = False"

fun isRenameOverwrite :: "event \<Rightarrow> bool" where
  "isRenameOverwrite (RenameOverwrite temp dest) = True"
| "isRenameOverwrite _ = False"

definition eventsFor :: "path \<Rightarrow> (path \<times> event) list \<Rightarrow> event list" where
  "eventsFor d tr = map snd (filter (\<lambda>x. fst x = d) tr)"

definition writeCount :: "path \<Rightarrow> (path \<times> event) list \<Rightarrow> nat" where
  "writeCount d tr = length (filter isWriteFile (eventsFor d tr))"

definition renameCount :: "path \<Rightarrow> (path \<times> event) list \<Rightarrow> nat" where
  "renameCount d tr = length (filter isRenameOverwrite (eventsFor d tr))"

text \<open>A schedule that leaves the function behind promise \<open>p\<close> suspended.\<close>

fun noResume :: "nat \<Rightarrow> action list \<Rightarrow> bool" where
  "noResume p [] = True"
| "noResume p (Call cafsDir buf fileDest md integ # as) = noResume p as"
| "noResume p (Resume w q # as) = (q \<noteq> p \<and> noResume p as)"

section \<open>Auxiliary notions for the proofs\<close>

text \<open>
  A file name that \<open>path.join\<close> appends unchanged: not empty, not \<open>.\<close> or \<open>..\<close>, and
  without a separator. \<open>joinPrefix d\<close> is what \<open>path.join d\<close> puts in front of it.
\<close>

definition plainName :: "string \<Rightarrow> bool" where
  "plainName n = (n \<noteq> [] \<and> n \<noteq> ''.'' \<and> n \<noteq> ''..'' \<and> CHR ''/'' \<notin> set n)"

definition joinPrefix :: "path \<Rightarrow> string" where
  "joinPrefix d =
     (let st = normalizeSegments (\<not> isPathSeparator (hd d)) [] (segments d)
      in (if isPathSeparator (hd d) then ''/'' else []) @
         (if st = [] then [] else joinSegments st @ ''/''))"

text \<open>
  How many \<open>writeFile\<close> and \<open>renameOverwrite\<close> calls a promise may have behind it: a
  function suspended before line 39 has made neither, one suspended at line 39 has
  written but not renamed.
\<close>

fun writesAllowed :: "promise \<Rightarrow> nat" where
  "writesAllowed (Pending t) =
     (case t_frame t of AwaitStat \<Rightarrow> 0 | AwaitVerify f sz i \<Rightarrow> 0
      | AwaitWriteFile temp \<Rightarrow> 1 | AwaitRename temp b \<Rightarrow> 1)"
| "writesAllowed (Fulfilled ts) = 1"
| "writesAllowed (Rejected err) = 1"

fun renamesAllowed :: "promise \<Rightarrow> nat" where
  "renamesAllowed (Pending t) =
     (case t_frame t of AwaitStat \<Rightarrow> 0 | AwaitVerify f sz i \<Rightarrow> 0
      | AwaitWriteFile temp \<Rightarrow> 0 | AwaitRename temp b \<Rightarrow> 1)"
| "renamesAllowed (Fulfilled ts) = 1"
| "renamesAllowed (Rejected err) = 1"

text \<open>
  The invariant of a session: every locker entry points into the store, every suspended
  function is registered in the locker under its own destination, and the calls logged
  for a destination are within what its promise allows.
\<close>

definition consistent :: "session \<Rightarrow> bool" where
  "consistent s =
     ((\<forall>d p. locker s d = Some p \<longrightarrow> p < length (promises s))
      \<and> (\<forall>p t. p < length (promises s) \<longrightarrow> promises s ! p = Pending t
            \<longrightarrow> locker s (t_fileDest t) = Some p)
      \<and> (\<forall>d. case locker s d of
             None \<Rightarrow> eventsFor d (trace s) = []
           | Some p \<Rightarrow> writeCount d (trace s) \<le> writesAllowed (promises s ! p)
                    \<and> renameCount d (trace s) \<le> renamesAllowed (promises s ! p)))"

section \<open>Example inputs\<close>

text \<open>
  The scenario of the store's tests: buffer \<open>B1\<close> of ten bytes, written to the key
  \<open>ab/cd1234\<close> of the store \<open>/store\<close> with mode \<open>0644\<close> by process \<open>4242\<close>.
  \<open>constWorld\<close> is a world whose answers do not depend on the path asked about.
\<close>

definition enoent :: error where
  "enoent = Error (Some ''ENOENT'') ''no such file or directory''"

definition eacces :: error where
  "eacces = Error (Some ''EACCES'') ''permission denied''"

definition constWorld ::
    "(error + stats) \<Rightarrow> (error + bool) \<Rightarrow> (error + unit) \<Rightarrow> (error + unit) \<Rightarrow> bool \<Rightarrow> int \<Rightarrow> world" where
  "constWorld st vr wr rn ex t =
     \<lparr>stat = (\<lambda>_. st), verifyFileIntegrity = (\<lambda>_ _ _. vr), writeFile = (\<lambda>_ _ _. wr),
      renameOverwrite = (\<lambda>_ _. rn), existsSync = (\<lambda>_. ex), now = t\<rparr>"

definition B1 :: buffer where
  "B1 = [1, 2, 3, 4, 5, 6, 7, 8, 9, 10]"

definition callB1 :: action where
  "callB1 = Call ''/store'' B1 ''ab/cd1234'' (Some 420) ''sha512-d1''"

definition dest1 :: path where
  "dest1 = ''/store/ab/cd1234''"

definition taskB1 :: "frame \<Rightarrow> task" where
  "taskB1 fr = \<lparr>t_fileDest = dest1, t_buffer = B1, t_mode = Some 420,
                t_integrity = ''sha512-d1'', t_frame = fr\<rparr>"

text \<open>
  Four worlds: the destination is missing and every operation succeeds; the destination
  holds the expected ten bytes; writing and renaming are refused; and the race of line 55,
  where the temporary file has vanished and the destination is there.
\<close>

definition missWorld :: "int \<Rightarrow> world" where
  "missWorld t = constWorld (Inl enoent) (Inr False) (Inr ()) (Inr ()) False t"

definition hitWorld :: "int \<Rightarrow> world" where
  "hitWorld t = constWorld (Inr (Stats 10)) (Inr True) (Inr ()) (Inr ()) True t"

definition denyWorld :: "int \<Rightarrow> world" where
  "denyWorld t = constWorld (Inl enoent) (Inr False) (Inl eacces) (Inl eacces) False t"

definition raceWorld :: "int \<Rightarrow> world" where
  "raceWorld t = constWorld (Inl enoent) (Inr False) (Inr ()) (Inl enoent) True t"

definition temp1 :: path where
  "temp1 = ''/store/ab/cd12344242''"

text \<open>A session that has seen calls for \<open>dest1\<close> only, and the complete write of \<open>B1\<close>.\<close>

definition exSession :: "promise \<Rightarrow> event list \<Rightarrow> session" where
  "exSession pr evs = \<lparr>locker = [dest1 \<mapsto> 0], promises = [pr], trace = map (Pair dest1) evs\<rparr>"

definition writeB1 :: "action list" where
  "writeB1 = [callB1, Resume (missWorld 1000) 0, Resume (missWorld 1005) 0, Resume (missWorld 1009) 0]"

section \<open>Facts about paths\<close>

lemma segments_nonempty: "segments p \<noteq> []"
  by (cases p) auto

lemma segments_no_separator: "CHR ''/'' \<notin> set n \<Longrightarrow> segments n = [n]"
  by (induction n) (auto simp: isPathSeparator_def)

lemma segments_append_name:
  "CHR ''/'' \<notin> set n \<Longrightarrow> segments (d @ CHR ''/'' # n) = segments d @ [n]"
proof (induction d)
  case Nil
  then show ?case by (simp add: segments_no_separator isPathSeparator_def)
next
  case (Cons c cs)
  then show ?case
    using segments_nonempty [of cs] by (cases "segments cs") auto
qed

lemma normalizeSegments_snoc:
  "n \<noteq> [] \<Longrightarrow> n \<noteq> ''.'' \<Longrightarrow> n \<noteq> ''..'' \<Longrightarrow>
   normalizeSegments allow res (segs @ [n]) = normalizeSegments allow res segs @ [n]"
  by (induction segs arbitrary: res) simp_all

lemma joinSegments_snoc:
  "joinSegments (st @ [n]) = (if st = [] then n else joinSegments st @ CHR ''/'' # n)"
  by (induction st rule: joinSegments.induct) simp_all

lemma path_join_plain:
  assumes "d \<noteq> []" and "plainName n"
  shows "path_join d n = joinPrefix d @ n"
proof -
  from assms(2) have n: "n \<noteq> []" "n \<noteq> ''.''" "n \<noteq> ''..''" "CHR ''/'' \<notin> set n"
    by (simp_all add: plainName_def)
  let ?p = "d @ CHR ''/'' # n"
  have hd: "hd ?p = hd d" using assms(1) by simp
  have last: "\<not> isPathSeparator (last ?p)"
    using n(1,4) by (auto simp: isPathSeparator_def dest: last_in_set)
  have segs: "normalizeSegments allow [] (segments ?p) = normalizeSegments allow [] (segments d) @ [n]" for allow
    using n by (simp add: segments_append_name normalizeSegments_snoc)
  have ne: "joinSegments (st @ [n]) \<noteq> []" for st
    using n(1) by (simp add: joinSegments_snoc)
  show ?thesis
    using assms(1) n(1) hd last ne
    by (simp add: path_join_def path_normalize_def joinPrefix_def segs Let_def joinSegments_snoc)
qed

lemma path_join_plain_inj:
  "d \<noteq> [] \<Longrightarrow> plainName n \<Longrightarrow> plainName m \<Longrightarrow> (path_join d n = path_join d m) = (n = m)"
  by (simp add: path_join_plain)

lemma path_dirname_nonempty: "path_dirname p \<noteq> []"
  by (auto simp: path_dirname_def Let_def)

lemma digit_char: "d < 10 \<Longrightarrow> ''0123456789'' ! d \<in> set ''0123456789''"
  by (rule nth_mem) simp

lemma decimal_digits: "set (decimal n) \<subseteq> set ''0123456789''"
proof (induction n rule: decimal.induct)
  case (1 n)
  show ?case
  proof (cases "n < 10")
    case True
    then show ?thesis using digit_char [of n] by (subst decimal.simps) simp
  next
    case False
    have "n mod 10 < 10" by simp
    then have "''0123456789'' ! (n mod 10) \<in> set ''0123456789''" by (rule digit_char)
    with False 1 show ?thesis by (subst decimal.simps) simp
  qed
qed

lemma plainName_decimal:
  "b \<noteq> [] \<Longrightarrow> CHR ''/'' \<notin> set b \<Longrightarrow> CHR ''.'' \<notin> set b \<Longrightarrow> plainName (b @ decimal n)"
  using decimal_digits [of n] by (auto simp: plainName_def append_eq_Cons_conv)

lemma removeSuffix_exec: "removeSuffix ''foo-exec'' = ''foox''"
  by (simp add: removeSuffix_def indexOf_def)

lemma removeSuffix_other: "removeSuffix ''foo-other'' = ''foo''"
  by (simp add: removeSuffix_def indexOf_def)

lemma removeSuffix_none: "removeSuffix ''foo'' = ''foo''"
  by (simp add: removeSuffix_def indexOf_def)

lemmas path_eval = pathTemp_def path_join_def path_normalize_def path_dirname_def
  path_basename_def removeSuffix_def indexOf_def isPathSeparator_def decimal.simps

section \<open>Facts about sessions\<close>

lemma eventsFor_append: "eventsFor d (tr @ tr') = eventsFor d tr @ eventsFor d tr'"
  by (simp add: eventsFor_def)

lemma eventsFor_tagged: "eventsFor d (map (Pair d') evs) = (if d' = d then evs else [])"
  by (induction evs) (auto simp: eventsFor_def)

lemma optimisticRenameOverwrite_events:
  "optimisticRenameOverwrite w temp d = (r, evs) \<Longrightarrow>
   filter isWriteFile evs = [] \<and> filter isRenameOverwrite evs = []"
  by (auto simp: optimisticRenameOverwrite_def split: sum.splits if_splits)

lemma resumeTask_fileDest:
  "resumeTask pid w t = (evs, Pending t') \<Longrightarrow> t_fileDest t' = t_fileDest t"
  by (auto simp: resumeTask_def afterExistsSame_def Let_def
      split: frame.splits sum.splits existsSame_result.splits if_splits prod.splits)

lemma resumeTask_writes:
  "resumeTask pid w t = (evs, pr) \<Longrightarrow>
   length (filter isWriteFile evs) + writesAllowed (Pending t) \<le> writesAllowed pr"
  by (auto simp: resumeTask_def afterExistsSame_def Let_def
      dest: optimisticRenameOverwrite_events
      split: frame.splits sum.splits existsSame_result.splits if_splits prod.splits)

lemma resumeTask_renames:
  "resumeTask pid w t = (evs, pr) \<Longrightarrow>
   length (filter isRenameOverwrite evs) + renamesAllowed (Pending t) \<le> renamesAllowed pr"
  by (auto simp: resumeTask_def afterExistsSame_def Let_def
      dest: optimisticRenameOverwrite_events
      split: frame.splits sum.splits existsSame_result.splits if_splits prod.splits)

lemma consistent_newSession: "consistent newSession"
  by (simp add: consistent_def newSession_def eventsFor_def)

lemma consistent_resume:
  assumes c: "consistent s"
  shows "consistent (resume pid w p s)"
proof (cases "p < length (promises s)")
  case False
  then show ?thesis using c by (simp add: resume_def)
next
  case lt: True
  show ?thesis
  proof (cases "promises s ! p")
    case (Fulfilled ts)
    then show ?thesis using c lt by (simp add: resume_def)
  next
    case (Rejected err)
    then show ?thesis using c lt by (simp add: resume_def)
  next
    case (Pending t)
    obtain evs pr where rt: "resumeTask pid w t = (evs, pr)" by (cases "resumeTask pid w t")
    let ?s' = "s\<lparr>promises := (promises s)[p := pr],
                 trace := trace s @ map (Pair (t_fileDest t)) evs\<rparr>"
    have s': "resume pid w p s = ?s'"
      using lt Pending rt by (simp add: resume_def)
    from c have a: "\<And>d q. locker s d = Some q \<Longrightarrow> q < length (promises s)"
      and b: "\<And>q u. q < length (promises s) \<Longrightarrow> promises s ! q = Pending u
                \<Longrightarrow> locker s (t_fileDest u) = Some q"
      and cc: "\<And>d. case locker s d of
             None \<Rightarrow> eventsFor d (trace s) = []
           | Some q \<Rightarrow> writeCount d (trace s) \<le> writesAllowed (promises s ! q)
                    \<and> renameCount d (trace s) \<le> renamesAllowed (promises s ! q)"
      by (auto simp: consistent_def)
    have own: "locker s (t_fileDest t) = Some p" using b [OF lt Pending] .
    have wr: "length (filter isWriteFile evs) + writesAllowed (Pending t) \<le> writesAllowed pr"
      using resumeTask_writes [OF rt] .
    have rn: "length (filter isRenameOverwrite evs) + renamesAllowed (Pending t) \<le> renamesAllowed pr"
      using resumeTask_renames [OF rt] .
    have a': "\<forall>d q. locker ?s' d = Some q \<longrightarrow> q < length (promises ?s')"
      using a by simp
    have b': "\<forall>q u. q < length (promises ?s') \<longrightarrow> promises ?s' ! q = Pending u
                \<longrightarrow> locker ?s' (t_fileDest u) = Some q"
    proof (intro allI impI)
      fix q u
      assume q: "q < length (promises ?s')" and u: "promises ?s' ! q = Pending u"
      show "locker ?s' (t_fileDest u) = Some q"
      proof (cases "q = p")
        case True
        with u lt have "pr = Pending u" by simp
        with rt have "t_fileDest u = t_fileDest t" using resumeTask_fileDest by blast
        with own True show ?thesis by simp
      next
        case False
        with q u have "q < length (promises s)" "promises s ! q = Pending u" by simp_all
        then show ?thesis using b by simp
      qed
    qed
    have c': "\<forall>d. case locker ?s' d of
             None \<Rightarrow> eventsFor d (trace ?s') = []
           | Some q \<Rightarrow> writeCount d (trace ?s') \<le> writesAllowed (promises ?s' ! q)
                    \<and> renameCount d (trace ?s') \<le> renamesAllowed (promises ?s' ! q)"
    proof
      fix d
      show "case locker ?s' d of
             None \<Rightarrow> eventsFor d (trace ?s') = []
           | Some q \<Rightarrow> writeCount d (trace ?s') \<le> writesAllowed (promises ?s' ! q)
                    \<and> renameCount d (trace ?s') \<le> renamesAllowed (promises ?s' ! q)"
      proof (cases "locker s d")
        case None
        with own have "t_fileDest t \<noteq> d" by auto
        with None cc [of d] show ?thesis
          by (simp add: eventsFor_append eventsFor_tagged)
      next
        case (Some q)
        with cc [of d] have old: "writeCount d (trace s) \<le> writesAllowed (promises s ! q)"
          "renameCount d (trace s) \<le> renamesAllowed (promises s ! q)" by simp_all
        show ?thesis
        proof (cases "q = p")
          case True
          with old Pending wr rn lt Some show ?thesis
            by (simp add: writeCount_def renameCount_def eventsFor_append eventsFor_tagged)
        next
          case False
          with Some own have "t_fileDest t \<noteq> d" by auto
          with False old Some show ?thesis
            by (simp add: writeCount_def renameCount_def eventsFor_append eventsFor_tagged)
        qed
      qed
    qed
    show ?thesis unfolding s' using a' b' c' by (simp only: consistent_def simp_thms)
  qed
qed

lemma consistent_call:
  assumes c: "consistent s"
  shows "consistent (snd (writeBufferToCafs s cafsDir buf fileDest md integ))"
proof (cases "locker s (path_join cafsDir fileDest)")
  case (Some p)
  then show ?thesis using c by (simp add: writeBufferToCafs_def)
next
  case None
  let ?d = "path_join cafsDir fileDest"
  let ?n = "length (promises s)"
  let ?t = "\<lparr>t_fileDest = ?d, t_buffer = buf, t_mode = md, t_integrity = integ, t_frame = AwaitStat\<rparr>"
  let ?s' = "s\<lparr>locker := (locker s)(?d \<mapsto> ?n),
                promises := promises s @ [Pending ?t],
                trace := trace s @ [(?d, Stat ?d)]\<rparr>"
  have s': "snd (writeBufferToCafs s cafsDir buf fileDest md integ) = ?s'"
    using None by (simp add: writeBufferToCafs_def Let_def)
  from c have a: "\<And>d q. locker s d = Some q \<Longrightarrow> q < length (promises s)"
    and b: "\<And>q u. q < length (promises s) \<Longrightarrow> promises s ! q = Pending u
              \<Longrightarrow> locker s (t_fileDest u) = Some q"
    and cc: "\<And>d. case locker s d of
           None \<Rightarrow> eventsFor d (trace s) = []
         | Some q \<Rightarrow> writeCount d (trace s) \<le> writesAllowed (promises s ! q)
                  \<and> renameCount d (trace s) \<le> renamesAllowed (promises s ! q)"
    by (auto simp: consistent_def)
  have a': "\<forall>d q. locker ?s' d = Some q \<longrightarrow> q < length (promises ?s')"
    using a by (auto simp: less_Suc_eq)
  have b': "\<forall>q u. q < length (promises ?s') \<longrightarrow> promises ?s' ! q = Pending u
              \<longrightarrow> locker ?s' (t_fileDest u) = Some q"
  proof (intro allI impI)
    fix q u
    assume q: "q < length (promises ?s')" and u: "promises ?s' ! q = Pending u"
    show "locker ?s' (t_fileDest u) = Some q"
    proof (cases "q = ?n")
      case True
      with u show ?thesis by auto
    next
      case False
      with q have lt: "q < ?n" by simp
      with u have "promises s ! q = Pending u" by (simp add: nth_append)
      with lt have l: "locker s (t_fileDest u) = Some q" using b by simp
      with None have "t_fileDest u \<noteq> ?d" by auto
      with l show ?thesis by simp
    qed
  qed
  have c': "\<forall>d. case locker ?s' d of
           None \<Rightarrow> eventsFor d (trace ?s') = []
         | Some q \<Rightarrow> writeCount d (trace ?s') \<le> writesAllowed (promises ?s' ! q)
                  \<and> renameCount d (trace ?s') \<le> renamesAllowed (promises ?s' ! q)"
  proof
    fix d
    show "case locker ?s' d of
           None \<Rightarrow> eventsFor d (trace ?s') = []
         | Some q \<Rightarrow> writeCount d (trace ?s') \<le> writesAllowed (promises ?s' ! q)
                  \<and> renameCount d (trace ?s') \<le> renamesAllowed (promises ?s' ! q)"
    proof (cases "d = ?d")
      case True
      from cc [of ?d] None have "eventsFor ?d (trace s) = []" by simp
      with True show ?thesis
        by (simp add: writeCount_def renameCount_def eventsFor_append) (simp add: eventsFor_def)
    next
      case False
      have ev: "eventsFor d (trace ?s') = eventsFor d (trace s)"
        using False by (simp add: eventsFor_def)
      show ?thesis
      proof (cases "locker s d")
        case None
        with cc [of d] False ev show ?thesis by simp
      next
        case (Some q)
        with a have "q < ?n" by simp
        with Some cc [of d] False ev show ?thesis
          by (simp add: writeCount_def renameCount_def nth_append)
      qed
    qed
  qed
  show ?thesis unfolding s' using a' b' c' by (simp only: consistent_def simp_thms)
qed

lemma consistent_step: "consistent s \<Longrightarrow> consistent (step pid a s)"
  by (cases a) (simp_all add: consistent_call consistent_resume)

lemma consistent_run: "consistent s \<Longrightarrow> consistent (run pid as s)"
  by (induction as arbitrary: s) (simp_all add: consistent_step)

lemma consistent_counts:
  assumes "consistent s"
  shows "writeCount d (trace s) \<le> 1 \<and> renameCount d (trace s) \<le> 1"
proof -
  from assms have cc: "case locker s d of
           None \<Rightarrow> eventsFor d (trace s) = []
         | Some q \<Rightarrow> writeCount d (trace s) \<le> writesAllowed (promises s ! q)
                  \<and> renameCount d (trace s) \<le> renamesAllowed (promises s ! q)"
    by (simp add: consistent_def)
  show ?thesis
  proof (cases "locker s d")
    case None
    with cc have "eventsFor d (trace s) = []" by simp
    then show ?thesis by (simp add: writeCount_def renameCount_def)
  next
    case (Some p)
    with cc have "writeCount d (trace s) \<le> writesAllowed (promises s ! p)"
      "renameCount d (trace s) \<le> renamesAllowed (promises s ! p)"
      by simp_all
    moreover have "writesAllowed pr \<le> 1" "renamesAllowed pr \<le> 1" for pr
      by (cases pr; simp split: frame.splits)+
    ultimately show ?thesis by (meson le_trans)
  qed
qed

lemma run_append: "run pid (as @ bs) s = run pid bs (run pid as s)"
  by (induction as arbitrary: s) simp_all

lemma answers_append:
  "answers pid (as @ bs) s = answers pid as s @ answers pid bs (run pid as s)"
  by (induction as arbitrary: s) simp_all

lemma call_cached:
  "locker s (path_join cafsDir fileDest) = Some p \<Longrightarrow>
   writeBufferToCafs s cafsDir buf fileDest md integ = (p, s)"
  by (simp add: writeBufferToCafs_def)

lemma call_registers:
  "locker (snd (writeBufferToCafs s cafsDir buf fileDest md integ)) (path_join cafsDir fileDest)
   = Some (fst (writeBufferToCafs s cafsDir buf fileDest md integ))"
  by (cases "locker s (path_join cafsDir fileDest)") (simp_all add: writeBufferToCafs_def Let_def)

lemma locker_resume: "locker (resume pid w q s) = locker s"
  by (simp add: resume_def split: promise.splits prod.splits)

lemma locker_call:
  "locker s d = Some p \<Longrightarrow> locker (snd (writeBufferToCafs s cafsDir buf fileDest md integ)) d = Some p"
  by (cases "locker s (path_join cafsDir fileDest)") (auto simp: writeBufferToCafs_def Let_def)

lemma locker_step: "locker s d = Some p \<Longrightarrow> locker (step pid a s) d = Some p"
  by (cases a) (simp_all add: locker_call locker_resume)

lemma locker_run: "locker s d = Some p \<Longrightarrow> locker (run pid as s) d = Some p"
  by (induction as arbitrary: s) (simp_all add: locker_step)

lemma length_resume: "length (promises (resume pid w q s)) = length (promises s)"
  by (simp add: resume_def split: promise.splits prod.splits)

lemma length_step: "length (promises s) \<le> length (promises (step pid a s))"
proof (cases a)
  case (Call cafsDir buf fileDest md integ)
  then show ?thesis
    by (cases "locker s (path_join cafsDir fileDest)") (simp_all add: writeBufferToCafs_def Let_def)
next
  case (Resume w q)
  then show ?thesis by (simp add: length_resume)
qed

lemma promise_call:
  "p < length (promises s) \<Longrightarrow>
   promises (snd (writeBufferToCafs s cafsDir buf fileDest md integ)) ! p = promises s ! p"
  by (cases "locker s (path_join cafsDir fileDest)")
     (simp_all add: writeBufferToCafs_def Let_def nth_append)

lemma promise_resume_other:
  "q \<noteq> p \<Longrightarrow> promises (resume pid w q s) ! p = promises s ! p"
  by (simp add: resume_def split: promise.splits prod.splits)

lemma promise_resume_settled:
  "\<forall>t. promises s ! p \<noteq> Pending t \<Longrightarrow> promises (resume pid w q s) ! p = promises s ! p"
  by (cases "q = p") (auto simp: resume_def split: promise.splits prod.splits)

lemma settled_step:
  "p < length (promises s) \<Longrightarrow> \<forall>t. promises s ! p \<noteq> Pending t \<Longrightarrow>
   promises (step pid a s) ! p = promises s ! p"
  by (cases a) (simp_all add: promise_call promise_resume_settled)

lemma settled_run:
  "p < length (promises s) \<Longrightarrow> \<forall>t. promises s ! p \<noteq> Pending t \<Longrightarrow>
   promises (run pid as s) ! p = promises s ! p"
proof (induction as arbitrary: s)
  case Nil
  then show ?case by simp
next
  case (Cons a as)
  have "p < length (promises (step pid a s))"
    using Cons.prems(1) length_step [of s pid a] by simp
  moreover have "promises (step pid a s) ! p = promises s ! p"
    using Cons.prems by (rule settled_step)
  ultimately show ?case using Cons.IH [of "step pid a s"] Cons.prems(2) by simp
qed

lemma answers_locker:
  "(d, p) \<in> set (answers pid as s) \<Longrightarrow> locker (run pid as s) d = Some p"
proof (induction as arbitrary: s)
  case Nil
  then show ?case by simp
next
  case (Cons a as)
  from Cons.prems have "(d, p) \<in> set (answer a s) \<or> (d, p) \<in> set (answers pid as (step pid a s))"
    by simp
  then show ?case
  proof
    assume here: "(d, p) \<in> set (answer a s)"
    then obtain cafsDir buf fileDest md integ where a: "a = Call cafsDir buf fileDest md integ"
      by (cases a) simp_all
    with here have "locker (step pid a s) d = Some p" by (simp add: call_registers)
    then show ?thesis by (simp add: locker_run)
  next
    assume "(d, p) \<in> set (answers pid as (step pid a s))"
    then show ?thesis using Cons.IH by simp
  qed
qed

lemma others_step:
  assumes c: "consistent s" and lt: "p < length (promises s)"
    and pend: "promises s ! p = Pending t" and other: "noResume p [a]"
  shows "promises (step pid a s) ! p = Pending t
       \<and> eventsFor (t_fileDest t) (trace (step pid a s)) = eventsFor (t_fileDest t) (trace s)"
proof -
  from c lt pend have own: "locker s (t_fileDest t) = Some p" by (simp add: consistent_def)
  show ?thesis
  proof (cases a)
    case (Call cafsDir buf fileDest md integ)
    show ?thesis
    proof (cases "locker s (path_join cafsDir fileDest)")
      case None
      with own have "path_join cafsDir fileDest \<noteq> t_fileDest t" by auto
      with None Call lt pend show ?thesis
        by (simp add: writeBufferToCafs_def Let_def nth_append eventsFor_def)
    next
      case (Some q)
      with Call pend show ?thesis by (simp add: writeBufferToCafs_def)
    qed
  next
    case (Resume w q)
    with other have qp: "q \<noteq> p" by simp
    have ev: "eventsFor (t_fileDest t) (trace (resume pid w q s)) = eventsFor (t_fileDest t) (trace s)"
    proof (cases "q < length (promises s)")
      case False
      then show ?thesis by (simp add: resume_def)
    next
      case qlt: True
      show ?thesis
      proof (cases "promises s ! q")
        case (Pending u)
        with c qlt have "locker s (t_fileDest u) = Some q" by (simp add: consistent_def)
        with own qp have "t_fileDest u \<noteq> t_fileDest t" by auto
        with Pending qlt show ?thesis
          by (simp add: resume_def eventsFor_append eventsFor_tagged split: prod.splits)
      qed (simp_all add: resume_def qlt)
    qed
    with Resume qp pend show ?thesis by (simp add: promise_resume_other)
  qed
qed

lemma others_run:
  assumes "consistent s" and "p < length (promises s)"
    and "promises s ! p = Pending t" and "noResume p as"
  shows "promises (run pid as s) ! p = Pending t
       \<and> eventsFor (t_fileDest t) (trace (run pid as s)) = eventsFor (t_fileDest t) (trace s)
       \<and> p < length (promises (run pid as s))"
  using assms
proof (induction as arbitrary: s)
  case Nil
  then show ?case by simp
next
  case (Cons a as)
  from Cons.prems(4) have na: "noResume p [a]" and nas: "noResume p as"
    by (cases a; simp)+
  have st: "promises (step pid a s) ! p = Pending t"
    "eventsFor (t_fileDest t) (trace (step pid a s)) = eventsFor (t_fileDest t) (trace s)"
    using others_step [OF Cons.prems(1-3) na] by simp_all
  have lt: "p < length (promises (step pid a s))"
    using Cons.prems(2) length_step [of s pid a] by simp
  have c: "consistent (step pid a s)" using Cons.prems(1) by (rule consistent_step)
  show ?case using Cons.IH [OF c lt st(1) nas] st(2) by simp
qed

lemma eventsFor_Nil: "eventsFor d [] = []"
  by (simp add: eventsFor_def)

lemma eventsFor_Cons:
  "eventsFor d ((d', e) # tr) = (if d' = d then e # eventsFor d tr else eventsFor d tr)"
  by (simp add: eventsFor_def)

lemma resume_pending:
  assumes "p < length (promises s)" and "promises s ! p = Pending t"
  shows "promises (resume pid w p s) ! p = snd (resumeTask pid w t)"
    and "trace (resume pid w p s) = trace s @ map (Pair (t_fileDest t)) (fst (resumeTask pid w t))"
  using assms by (simp_all add: resume_def split: prod.splits)

section \<open>The example scenario, step by step\<close>

lemma path_join_dest1: "path_join ''/store'' ''ab/cd1234'' = dest1"
  by (simp add: path_eval dest1_def)

lemma pathTemp_dest1: "pathTemp 4242 dest1 = temp1"
  by (simp add: path_eval dest1_def temp1_def)

lemma call_newSession:
  "writeBufferToCafs newSession ''/store'' B1 ''ab/cd1234'' (Some 420) ''sha512-d1''
   = (0, exSession (Pending (taskB1 AwaitStat)) [Stat dest1])"
  by (simp add: writeBufferToCafs_def path_join_dest1 newSession_def exSession_def taskB1_def)

lemma call_exSession:
  "writeBufferToCafs (exSession pr evs) ''/store'' buf ''ab/cd1234'' md integ = (0, exSession pr evs)"
  by (simp add: writeBufferToCafs_def path_join_dest1 exSession_def)

lemma resume_exSession:
  "resume pid w 0 (exSession (Pending (taskB1 fr)) evs)
   = exSession (snd (resumeTask pid w (taskB1 fr))) (evs @ fst (resumeTask pid w (taskB1 fr)))"
  by (simp add: resume_def exSession_def taskB1_def split: prod.splits)

lemma resume_exSession_settled:
  "resume pid w 0 (exSession (Fulfilled ts) evs) = exSession (Fulfilled ts) evs"
  "resume pid w 0 (exSession (Rejected err) evs) = exSession (Rejected err) evs"
  by (simp_all add: resume_def exSession_def)

lemma task_stat_miss:
  "resumeTask 4242 (missWorld ts) (taskB1 AwaitStat)
   = ([WriteFile temp1 B1 (Some 420)], Pending (taskB1 (AwaitWriteFile temp1)))"
  using pathTemp_dest1
  by (simp add: resumeTask_def existsSame_def afterExistsSame_def missWorld_def constWorld_def
      taskB1_def)

lemma task_write_ok:
  "resumeTask 4242 (missWorld ts) (taskB1 (AwaitWriteFile temp1))
   = ([DateNow ts, RenameOverwrite temp1 dest1], Pending (taskB1 (AwaitRename temp1 ts)))"
  by (simp add: resumeTask_def missWorld_def constWorld_def taskB1_def)

lemma task_rename_ok:
  "resumeTask 4242 (missWorld ts) (taskB1 (AwaitRename temp1 b)) = ([], Fulfilled b)"
  by (simp add: resumeTask_def optimisticRenameOverwrite_def missWorld_def constWorld_def taskB1_def)



lemma exSession_sel:
  "locker (exSession pr evs) dest1 = Some 0"
  "promises (exSession pr evs) = [pr]"
  "trace (exSession pr evs) = map (Pair dest1) evs"
  by (simp_all add: exSession_def)

lemma taskB1_sel:
  "t_fileDest (taskB1 fr) = dest1" "t_buffer (taskB1 fr) = B1" "t_mode (taskB1 fr) = Some 420"
  "t_integrity (taskB1 fr) = ''sha512-d1''" "t_frame (taskB1 fr) = fr"
  "taskB1 fr\<lparr>t_frame := fr'\<rparr> = taskB1 fr'"
  by (simp_all add: taskB1_def)

lemma task_stat_hit:
  "resumeTask pid (hitWorld ts) (taskB1 AwaitStat)
   = ([VerifyFileIntegrity dest1 10 ''sha512-d1''],
      Pending (taskB1 (AwaitVerify dest1 10 ''sha512-d1'')))"
  by (simp add: resumeTask_def existsSame_def hitWorld_def constWorld_def taskB1_def)

lemma task_verify_hit:
  "resumeTask pid (hitWorld ts) (taskB1 (AwaitVerify dest1 10 ''sha512-d1''))
   = ([DateNow ts], Fulfilled ts)"
  by (simp add: resumeTask_def afterExistsSame_def hitWorld_def constWorld_def taskB1_def)

lemma task_write_denied:
  "resumeTask pid (denyWorld ts) (taskB1 (AwaitWriteFile temp1)) = ([], Rejected eacces)"
  by (simp add: resumeTask_def denyWorld_def constWorld_def taskB1_def)

lemma task_rename_race:
  "resumeTask pid (raceWorld ts) (taskB1 (AwaitRename temp1 b)) = ([ExistsSync dest1], Fulfilled b)"
  by (simp add: resumeTask_def optimisticRenameOverwrite_def raceWorld_def constWorld_def
      taskB1_def enoent_def)

lemma step_callB1:
  "step pid callB1 newSession = exSession (Pending (taskB1 AwaitStat)) [Stat dest1]"
  "step pid callB1 (exSession pr evs) = exSession pr evs"
  by (simp_all add: callB1_def call_newSession call_exSession)

lemmas example_eval = step_callB1 call_newSession call_exSession resume_exSession resume_exSession_settled
  task_stat_miss task_write_ok task_rename_ok task_stat_hit task_verify_hit task_write_denied
  task_rename_race path_join_dest1 callB1_def writeB1_def

section \<open>The claims\<close>

text \<open>
  \<^bold>\<open>C1\<close>. In a session that starts with an empty locker, whatever calls and resumptions
  are scheduled: for every destination at most one \<open>writeFile\<close> and at most one
  \<open>renameOverwrite\<close> are ever started, and all calls for that destination are answered
  with one and the same promise, hence with the same birth timestamp. The lookup in the
  locker and the registration of the promise are one step of the schedule, since
  \<open>writeBufferToCafs\<close> awaits nothing between them.
\<close>

theorem dedup_within_session:
  "writeCount d (trace (run pid as newSession)) \<le> 1
   \<and> renameCount d (trace (run pid as newSession)) \<le> 1
   \<and> (\<forall>p p'. (d, p) \<in> set (answers pid as newSession)
          \<longrightarrow> (d, p') \<in> set (answers pid as newSession)
          \<longrightarrow> p = p' \<and> promises (run pid as newSession) ! p = promises (run pid as newSession) ! p')"
proof -
  have "consistent (run pid as newSession)"
    using consistent_newSession by (rule consistent_run)
  then have counts: "writeCount d (trace (run pid as newSession)) \<le> 1
      \<and> renameCount d (trace (run pid as newSession)) \<le> 1"
    by (rule consistent_counts)
  have same: "p = p'"
    if "(d, p) \<in> set (answers pid as newSession)" "(d, p') \<in> set (answers pid as newSession)"
    for p p'
    using answers_locker [OF that(1)] answers_locker [OF that(2)] by simp
  from counts same show ?thesis by blast
qed

text \<open>
  The example: three calls for \<open>dest1\<close> around one complete write.
\<close>

theorem dedup_within_session_witness:
  "(dest1, 0) \<in> set (answers 4242 (callB1 # callB1 # tl writeB1 @ [callB1]) newSession)
   \<and> writeCount dest1 (trace (run 4242 (callB1 # callB1 # tl writeB1 @ [callB1]) newSession)) \<le> 1
   \<and> renameCount dest1 (trace (run 4242 (callB1 # callB1 # tl writeB1 @ [callB1]) newSession)) \<le> 1
   \<and> answers 4242 (callB1 # callB1 # tl writeB1 @ [callB1]) newSession
       = [(dest1, 0), (dest1, 0), (dest1, 0)]"
proof -
  have h: "(dest1, 0) \<in> set (answers 4242 (callB1 # callB1 # tl writeB1 @ [callB1]) newSession)"
    by (simp add: example_eval)
  have a: "answers 4242 (callB1 # callB1 # tl writeB1 @ [callB1]) newSession
       = [(dest1, 0), (dest1, 0), (dest1, 0)]"
    by (simp add: example_eval)
  show ?thesis
    using dedup_within_session [of dest1 4242 "callB1 # callB1 # tl writeB1 @ [callB1]"] h a
    by blast
qed

text \<open>
  \<^bold>\<open>C2\<close>. When \<open>renameOverwrite\<close> fails with code \<open>ENOENT\<close> while \<open>existsSync\<close>
  finds the destination, \<open>optimisticRenameOverwrite\<close> returns normally and the write
  is fulfilled; every other failure of \<open>renameOverwrite\<close> is thrown again, also
  \<open>ENOENT\<close> with the destination missing.
\<close>

theorem optimisticRenameOverwrite_outcomes:
  "(renameOverwrite w temp fileDest = Inl err \<and> code err = Some ''ENOENT'' \<and> existsSync w fileDest
      \<longrightarrow> fst (optimisticRenameOverwrite w temp fileDest) = Inr ())
   \<and> (renameOverwrite w temp fileDest = Inl err
        \<and> (code err \<noteq> Some ''ENOENT'' \<or> \<not> existsSync w fileDest)
      \<longrightarrow> fst (optimisticRenameOverwrite w temp fileDest) = Inl err)
   \<and> (renameOverwrite w temp fileDest = Inl err \<and> code err = Some ''ENOENT'' \<and> existsSync w fileDest
        \<and> t_frame t = AwaitRename temp birthtimeMs \<and> t_fileDest t = fileDest
      \<longrightarrow> snd (resumeTask pid w t) = Fulfilled birthtimeMs)"
  by (auto simp: optimisticRenameOverwrite_def resumeTask_def)

text \<open>
  The race, a refused rename, and \<open>ENOENT\<close> with no destination.
\<close>

theorem optimisticRenameOverwrite_outcomes_witness:
  "fst (optimisticRenameOverwrite (raceWorld 1009) temp1 dest1) = Inr ()
   \<and> fst (optimisticRenameOverwrite (denyWorld 1009) temp1 dest1) = Inl eacces
   \<and> fst (optimisticRenameOverwrite
            (constWorld (Inl enoent) (Inr False) (Inr ()) (Inl enoent) False 1009) temp1 dest1)
       = Inl enoent
   \<and> snd (resumeTask 4242 (raceWorld 1009) (taskB1 (AwaitRename temp1 1005))) = Fulfilled 1005"
  using optimisticRenameOverwrite_outcomes
          [of "raceWorld 1009" temp1 dest1 enoent "taskB1 (AwaitRename temp1 1005)" 1005 4242]
        optimisticRenameOverwrite_outcomes [of "denyWorld 1009" temp1 dest1 eacces]
        optimisticRenameOverwrite_outcomes
          [of "constWorld (Inl enoent) (Inr False) (Inr ()) (Inl enoent) False 1009"
              temp1 dest1 enoent]
  by (simp add: raceWorld_def denyWorld_def constWorld_def enoent_def eacces_def taskB1_sel)

text \<open>
  \<^bold>\<open>C3\<close>, as the code has it. For destinations of one directory with the basenames
  \<open>foo-exec\<close>, \<open>foo-other\<close> and \<open>foo\<close>: the temporary name of the first ends in the
  marker \<open>x\<close> followed by the process id and differs from the other two; the temporary
  names of \<open>foo-other\<close> and \<open>foo\<close> are the same, since every suffix but \<open>-exec\<close> is
  cut off at the first dash.
\<close>

theorem pathTemp_names:
  assumes b1: "path_basename f1 = ''foo-exec''"
    and b2: "path_basename f2 = ''foo-other''"
    and b3: "path_basename f3 = ''foo''"
    and d2: "path_dirname f2 = path_dirname f1"
    and d3: "path_dirname f3 = path_dirname f1"
  shows "pathTemp pid f1 = path_join (path_dirname f1) (''foox'' @ decimal pid)
       \<and> (\<exists>pre. pathTemp pid f1 = pre @ ''x'' @ decimal pid)
       \<and> pathTemp pid f1 \<noteq> pathTemp pid f2
       \<and> pathTemp pid f1 \<noteq> pathTemp pid f3
       \<and> pathTemp pid f2 = pathTemp pid f3"
proof -
  let ?d = "path_dirname f1"
  have p1: "pathTemp pid f1 = path_join ?d (''foox'' @ decimal pid)"
    by (simp add: pathTemp_def b1 removeSuffix_exec)
  have p2: "pathTemp pid f2 = path_join ?d (''foo'' @ decimal pid)"
    by (simp add: pathTemp_def b2 d2 removeSuffix_other)
  have p3: "pathTemp pid f3 = path_join ?d (''foo'' @ decimal pid)"
    by (simp add: pathTemp_def b3 d3 removeSuffix_none)
  have plx: "plainName (''foox'' @ decimal pid)" by (rule plainName_decimal) simp_all
  have pl: "plainName (''foo'' @ decimal pid)" by (rule plainName_decimal) simp_all
  have "decimal pid \<noteq> CHR ''x'' # decimal pid" by simp
  then have ne: "''foox'' @ decimal pid \<noteq> ''foo'' @ decimal pid" by simp
  have dist: "path_join ?d (''foox'' @ decimal pid) \<noteq> path_join ?d (''foo'' @ decimal pid)"
    using path_join_plain_inj [OF path_dirname_nonempty plx pl] ne by simp
  have ex: "\<exists>pre. pathTemp pid f1 = pre @ ''x'' @ decimal pid"
  proof (intro exI)
    show "pathTemp pid f1 = (joinPrefix ?d @ ''foo'') @ ''x'' @ decimal pid"
      using path_join_plain [OF path_dirname_nonempty plx] by (simp add: p1)
  qed
  from p1 ex dist p2 p3 show ?thesis by simp
qed

text \<open>
  The three names in the directory \<open>/store/ab\<close>, for process \<open>4242\<close>.
\<close>

theorem pathTemp_names_witness:
  "path_basename ''/store/ab/foo-exec'' = ''foo-exec''
   \<and> path_basename ''/store/ab/foo-other'' = ''foo-other''
   \<and> path_basename ''/store/ab/foo'' = ''foo''
   \<and> path_dirname ''/store/ab/foo-other'' = path_dirname ''/store/ab/foo-exec''
   \<and> path_dirname ''/store/ab/foo'' = path_dirname ''/store/ab/foo-exec''
   \<and> pathTemp 4242 ''/store/ab/foo-exec'' = ''/store/ab/foox4242''
   \<and> pathTemp 4242 ''/store/ab/foo-exec'' \<noteq> pathTemp 4242 ''/store/ab/foo-other''
   \<and> pathTemp 4242 ''/store/ab/foo-exec'' \<noteq> pathTemp 4242 ''/store/ab/foo''
   \<and> pathTemp 4242 ''/store/ab/foo-other'' = pathTemp 4242 ''/store/ab/foo''"
proof -
  have b1: "path_basename ''/store/ab/foo-exec'' = ''foo-exec''" by (simp add: path_eval)
  have b2: "path_basename ''/store/ab/foo-other'' = ''foo-other''" by (simp add: path_eval)
  have b3: "path_basename ''/store/ab/foo'' = ''foo''" by (simp add: path_eval)
  have d2: "path_dirname ''/store/ab/foo-other'' = path_dirname ''/store/ab/foo-exec''"
    by (simp add: path_eval)
  have d3: "path_dirname ''/store/ab/foo'' = path_dirname ''/store/ab/foo-exec''"
    by (simp add: path_eval)
  have e: "pathTemp 4242 ''/store/ab/foo-exec'' = ''/store/ab/foox4242''"
    by (simp add: path_eval)
  show ?thesis
    using pathTemp_names [OF b1 b2 b3 d2 d3, of 4242] b1 b2 b3 d2 d3 e by blast
qed

text \<open>
  \<^bold>\<open>C3\<close>, as it is stated, asks for the temporary names of \<open>foo-other\<close> and \<open>foo\<close> to
  differ. They do not.
\<close>

theorem pathTemp_other_collides:
  "path_basename ''/store/ab/foo-other'' = ''foo-other''
   \<and> path_basename ''/store/ab/foo'' = ''foo''
   \<and> path_dirname ''/store/ab/foo-other'' = path_dirname ''/store/ab/foo''
   \<and> pathTemp 4242 ''/store/ab/foo-other'' = ''/store/ab/foo4242''
   \<and> pathTemp 4242 ''/store/ab/foo'' = ''/store/ab/foo4242''
   \<and> \<not> (pathTemp 4242 ''/store/ab/foo-other'' \<noteq> pathTemp 4242 ''/store/ab/foo'')"
  by (simp add: path_eval)

text \<open>
  \<^bold>\<open>C4\<close>, as the code has it. A first call for a destination, in any reachable
  session: when \<open>fs.stat\<close> finds the file and \<open>verifyFileIntegrity\<close> answers \<open>true\<close>,
  the calls made for the destination are \<open>stat\<close>, \<open>verifyFileIntegrity\<close> and
  \<open>Date.now\<close>, with no \<open>writeFile\<close> and no \<open>renameOverwrite\<close>, whatever else is
  scheduled in between; the promise is fulfilled with what \<open>Date.now()\<close> reads when the
  check completes. That reading is not before the time of the call whenever the clock
  has not been set back between the call and the end of the check.
\<close>

theorem skip_on_match:
  assumes reach: "s = run pid as0 newSession"
    and first: "locker s (path_join cafsDir fileDest) = None"
    and at: "(callTime, p, s1) = callAt w0 s cafsDir buf fileDest md integ"
    and as1: "noResume p as1" and s2: "s2 = resume pid w1 p (run pid as1 s1)"
    and st: "stat w1 (path_join cafsDir fileDest) = Inr existingFile"
    and as2: "noResume p as2" and s3: "s3 = resume pid w2 p (run pid as2 s2)"
    and ok: "verifyFileIntegrity w2 (path_join cafsDir fileDest) (st_size existingFile) integ = Inr True"
  shows "eventsFor (path_join cafsDir fileDest) (trace s3) =
           [Stat (path_join cafsDir fileDest),
            VerifyFileIntegrity (path_join cafsDir fileDest) (st_size existingFile) integ,
            DateNow (now w2)]
       \<and> writeCount (path_join cafsDir fileDest) (trace s3) = 0
       \<and> renameCount (path_join cafsDir fileDest) (trace s3) = 0
       \<and> promises s3 ! p = Fulfilled (now w2)
       \<and> callTime = now w0
       \<and> (now w0 \<le> now w2 \<longrightarrow> (\<exists>ts. promises s3 ! p = Fulfilled ts \<and> callTime \<le> ts))"
proof -
  let ?d = "path_join cafsDir fileDest"
  let ?t = "\<lparr>t_fileDest = ?d, t_buffer = buf, t_mode = md, t_integrity = integ, t_frame = AwaitStat\<rparr>"
  let ?t2 = "?t\<lparr>t_frame := AwaitVerify ?d (st_size existingFile) integ\<rparr>"
  from at have time: "callTime = now w0"
    and call: "(p, s1) = writeBufferToCafs s cafsDir buf fileDest md integ"
    by (simp_all add: callAt_def)
  have cs: "consistent s" unfolding reach using consistent_newSession by (rule consistent_run)
  then have ev0: "eventsFor ?d (trace s) = []"
    using first by (auto simp: consistent_def split: option.splits dest: spec [of _ ?d])
  have p: "p = length (promises s)"
    and s1: "s1 = s\<lparr>locker := (locker s)(?d \<mapsto> length (promises s)),
                   promises := promises s @ [Pending ?t],
                   trace := trace s @ [(?d, Stat ?d)]\<rparr>"
    using call first by (simp_all add: writeBufferToCafs_def Let_def)
  have cs1: "consistent s1"
    using consistent_call [OF cs, of cafsDir buf fileDest md integ] call [symmetric] by simp
  have lt1: "p < length (promises s1)" and pend1: "promises s1 ! p = Pending ?t"
    and ev1: "eventsFor ?d (trace s1) = [Stat ?d]"
    using ev0 by (simp_all add: p s1 eventsFor_append eventsFor_Cons eventsFor_Nil)
  let ?r1 = "run pid as1 s1"
  have r1: "promises ?r1 ! p = Pending ?t" "eventsFor ?d (trace ?r1) = [Stat ?d]"
    "p < length (promises ?r1)"
    using others_run [OF cs1 lt1 pend1 as1, of pid] ev1 by simp_all
  have cr1: "consistent ?r1" using cs1 by (rule consistent_run)
  have rt1: "resumeTask pid w1 ?t =
      ([VerifyFileIntegrity ?d (st_size existingFile) integ], Pending ?t2)"
    using st by (simp add: resumeTask_def existsSame_def)
  have lt2: "p < length (promises s2)" and pend2: "promises s2 ! p = Pending ?t2"
    and ev2: "eventsFor ?d (trace s2) = [Stat ?d, VerifyFileIntegrity ?d (st_size existingFile) integ]"
    using r1 rt1 by (simp_all add: s2 resume_pending length_resume eventsFor_append eventsFor_Cons eventsFor_Nil)
  have cs2: "consistent s2" unfolding s2 using cr1 by (rule consistent_resume)
  let ?r2 = "run pid as2 s2"
  have r2: "promises ?r2 ! p = Pending ?t2"
    "eventsFor ?d (trace ?r2) = [Stat ?d, VerifyFileIntegrity ?d (st_size existingFile) integ]"
    "p < length (promises ?r2)"
    using others_run [OF cs2 lt2 pend2 as2, of pid] ev2 by simp_all
  have rt2: "resumeTask pid w2 ?t2 = ([DateNow (now w2)], Fulfilled (now w2))"
    using ok by (simp add: resumeTask_def afterExistsSame_def)
  have fin: "promises s3 ! p = Fulfilled (now w2)"
    and ev3: "eventsFor ?d (trace s3) =
      [Stat ?d, VerifyFileIntegrity ?d (st_size existingFile) integ, DateNow (now w2)]"
    using r2 rt2 by (simp_all add: s3 resume_pending length_resume eventsFor_append eventsFor_Cons eventsFor_Nil)
  from fin ev3 time show ?thesis by (simp add: writeCount_def renameCount_def)
qed

text \<open>
  The example: the call is made at \<open>1000\<close>, the destination holds the ten bytes of
  \<open>B1\<close>, two more calls join, and the check completes at \<open>2000\<close>.
\<close>

theorem skip_on_match_witness:
  "callAt (hitWorld 1000) newSession ''/store'' B1 ''ab/cd1234'' (Some 420) ''sha512-d1''
     = (1000, 0, exSession (Pending (taskB1 AwaitStat)) [Stat dest1])
   \<and> promises (run 4242 [callB1, callB1, Resume (hitWorld 1500) 0, callB1, Resume (hitWorld 2000) 0]
              newSession) ! 0 = Fulfilled 2000
   \<and> (\<exists>ts. promises (run 4242 [callB1, callB1, Resume (hitWorld 1500) 0, callB1,
                                  Resume (hitWorld 2000) 0] newSession) ! 0 = Fulfilled ts
           \<and> 1000 \<le> ts)
   \<and> eventsFor dest1
        (trace (run 4242 [callB1, callB1, Resume (hitWorld 1500) 0, callB1, Resume (hitWorld 2000) 0]
                  newSession))
       = [Stat dest1, VerifyFileIntegrity dest1 10 ''sha512-d1'', DateNow 2000]
   \<and> writeCount dest1
        (trace (run 4242 [callB1, callB1, Resume (hitWorld 1500) 0, callB1, Resume (hitWorld 2000) 0]
                  newSession)) = 0
   \<and> renameCount dest1
        (trace (run 4242 [callB1, callB1, Resume (hitWorld 1500) 0, callB1, Resume (hitWorld 2000) 0]
                  newSession)) = 0"
proof -
  let ?s1 = "exSession (Pending (taskB1 AwaitStat)) [Stat dest1]"
  let ?s2 = "resume 4242 (hitWorld 1500) 0 (run 4242 [callB1] ?s1)"
  let ?s3 = "resume 4242 (hitWorld 2000) 0 (run 4242 [callB1] ?s2)"
  have reach: "newSession = run 4242 [] newSession" by simp
  have first: "locker newSession (path_join ''/store'' ''ab/cd1234'') = None"
    by (simp add: newSession_def)
  have at: "(1000, 0, ?s1)
      = callAt (hitWorld 1000) newSession ''/store'' B1 ''ab/cd1234'' (Some 420) ''sha512-d1''"
    by (simp add: callAt_def call_newSession hitWorld_def constWorld_def)
  have quiet: "noResume 0 [callB1]" by (simp add: callB1_def)
  have st: "stat (hitWorld 1500) (path_join ''/store'' ''ab/cd1234'') = Inr (Stats 10)"
    by (simp add: hitWorld_def constWorld_def)
  have ok: "verifyFileIntegrity (hitWorld 2000) (path_join ''/store'' ''ab/cd1234'')
              (st_size (Stats 10)) ''sha512-d1'' = Inr True"
    by (simp add: hitWorld_def constWorld_def)
  have now: "now (hitWorld 2000) = 2000" "now (hitWorld 1000) = 1000"
    by (simp_all add: hitWorld_def constWorld_def)
  show ?thesis
    using skip_on_match [OF reach first at quiet refl st quiet refl ok] at
    by (simp add: step_callB1 path_join_dest1 now)
qed

text \<open>
  \<^bold>\<open>C4\<close>, as it is stated, promises a timestamp that is not before the call whenever
  the file is there and matches. \<open>Date.now()\<close> is the wall clock: here the call is made
  at \<open>1500\<close>, the file is found and verified, the clock is set back while the check
  runs, and the first call is answered with \<open>1000\<close>, with no write and no rename.
\<close>

theorem skip_on_match_clock_set_back:
  "locker newSession (path_join ''/store'' ''ab/cd1234'') = None
   \<and> callAt (hitWorld 1500) newSession ''/store'' B1 ''ab/cd1234'' (Some 420) ''sha512-d1''
       = (1500, 0, exSession (Pending (taskB1 AwaitStat)) [Stat dest1])
   \<and> stat (hitWorld 1500) dest1 = Inr (Stats 10)
   \<and> verifyFileIntegrity (hitWorld 1000) dest1 10 ''sha512-d1'' = Inr True
   \<and> run 4242 [Resume (hitWorld 1500) 0, Resume (hitWorld 1000) 0]
         (exSession (Pending (taskB1 AwaitStat)) [Stat dest1])
       = exSession (Fulfilled 1000)
           [Stat dest1, VerifyFileIntegrity dest1 10 ''sha512-d1'', DateNow 1000]
   \<and> \<not> (\<exists>ts. promises (run 4242 [Resume (hitWorld 1500) 0, Resume (hitWorld 1000) 0]
                            (exSession (Pending (taskB1 AwaitStat)) [Stat dest1])) ! 0 = Fulfilled ts
              \<and> 1500 \<le> ts)"
proof -
  have r: "run 4242 [Resume (hitWorld 1500) 0, Resume (hitWorld 1000) 0]
         (exSession (Pending (taskB1 AwaitStat)) [Stat dest1])
       = exSession (Fulfilled 1000)
           [Stat dest1, VerifyFileIntegrity dest1 10 ''sha512-d1'', DateNow 1000]"
    by (simp add: example_eval)
  have c: "callAt (hitWorld 1500) newSession ''/store'' B1 ''ab/cd1234'' (Some 420) ''sha512-d1''
       = (1500, 0, exSession (Pending (taskB1 AwaitStat)) [Stat dest1])"
    by (simp add: callAt_def call_newSession hitWorld_def constWorld_def)
  have w: "stat (hitWorld 1500) dest1 = Inr (Stats 10)"
    "verifyFileIntegrity (hitWorld 1000) dest1 10 ''sha512-d1'' = Inr True"
    by (simp_all add: hitWorld_def constWorld_def)
  have f: "locker newSession (path_join ''/store'' ''ab/cd1234'') = None"
    by (simp add: newSession_def)
  show ?thesis unfolding r using c w f by (simp add: exSession_sel)
qed

text \<open>
  \<^bold>\<open>C5\<close>. A call for a destination whose locker entry is fulfilled returns that
  promise and leaves the session as it is: nothing is added to the trace, so no call to
  the file system is made, not even \<open>stat\<close>. In particular, once a first call's promise
  is fulfilled with a timestamp, the same call made again returns that promise.
\<close>

theorem resolved_entry_short_circuits:
  "(locker s (path_join cafsDir fileDest) = Some p \<and> promises s ! p = Fulfilled ts
      \<longrightarrow> writeBufferToCafs s cafsDir buf fileDest md integ = (p, s))
   \<and> (let first = writeBufferToCafs s0 cafsDir buf fileDest md integ;
           s2 = run pid as (snd first)
       in promises s2 ! fst first = Fulfilled ts
          \<longrightarrow> writeBufferToCafs s2 cafsDir buf fileDest md integ = (fst first, s2))"
proof -
  let ?first = "writeBufferToCafs s0 cafsDir buf fileDest md integ"
  have "locker (run pid as (snd ?first)) (path_join cafsDir fileDest) = Some (fst ?first)"
    using call_registers by (rule locker_run)
  then have "writeBufferToCafs (run pid as (snd ?first)) cafsDir buf fileDest md integ
      = (fst ?first, run pid as (snd ?first))"
    by (rule call_cached)
  then show ?thesis by (simp add: call_cached Let_def)
qed

text \<open>
  The example: \<open>B1\<close> is written with birth time \<open>1005\<close>, then requested again.
\<close>

theorem resolved_entry_short_circuits_witness:
  "promises (run 4242 writeB1 newSession) ! 0 = Fulfilled 1005
   \<and> writeBufferToCafs (run 4242 writeB1 newSession) ''/store'' B1 ''ab/cd1234'' (Some 420) ''sha512-d1''
       = (0, run 4242 writeB1 newSession)"
proof -
  let ?s = "exSession (Fulfilled 1005)
       [Stat dest1, WriteFile temp1 B1 (Some 420), DateNow 1005, RenameOverwrite temp1 dest1]"
  have run: "run 4242 writeB1 newSession = ?s"
    by (simp add: example_eval taskB1_sel)
  have h: "locker ?s (path_join ''/store'' ''ab/cd1234'') = Some 0 \<and> promises ?s ! 0 = Fulfilled 1005"
    by (simp add: path_join_dest1 exSession_sel)
  have first: "writeBufferToCafs newSession ''/store'' B1 ''ab/cd1234'' (Some 420) ''sha512-d1''
     = (0, exSession (Pending (taskB1 AwaitStat)) [Stat dest1])"
    by (rule call_newSession)
  have rest: "run 4242 (tl writeB1) (exSession (Pending (taskB1 AwaitStat)) [Stat dest1]) = ?s"
    by (simp add: example_eval taskB1_sel)
  show ?thesis
    using resolved_entry_short_circuits
      [of ?s "''/store''" "''ab/cd1234''" 0 1005 B1 "Some 420" "''sha512-d1''" newSession 4242 "tl writeB1"]
      h
    by (simp add: run first rest exSession_sel)
qed

text \<open>
  \<^bold>\<open>C6\<close>. When the suspended write of a destination fails, because \<open>writeFile\<close>
  fails or because \<open>renameOverwrite\<close> fails outside the tolerated race, then every call
  for that destination, made before or after the failure, holds a promise that is
  rejected with that error, and stays so.
\<close>

theorem fatal_error_reaches_every_caller:
  assumes reach: "s = run pid as newSession"
    and lt: "p < length (promises s)" and pend: "promises s ! p = Pending t"
    and fails: "(t_frame t = AwaitWriteFile temp \<and> writeFile w temp (t_buffer t) (t_mode t) = Inl err)
       \<or> (t_frame t = AwaitRename temp birthtimeMs \<and> renameOverwrite w temp (t_fileDest t) = Inl err
           \<and> (code err \<noteq> Some ''ENOENT'' \<or> \<not> existsSync w (t_fileDest t)))"
    and caller: "(t_fileDest t, q) \<in> set (answers pid (as @ Resume w p # as') newSession)"
  shows "q = p \<and> promises (run pid (as @ Resume w p # as') newSession) ! q = Rejected err"
proof -
  let ?all = "as @ Resume w p # as'"
  have cs: "consistent s" unfolding reach using consistent_newSession by (rule consistent_run)
  with lt pend have "locker s (t_fileDest t) = Some p" by (simp add: consistent_def)
  then have "locker (run pid (Resume w p # as') s) (t_fileDest t) = Some p" by (rule locker_run)
  then have "locker (run pid ?all newSession) (t_fileDest t) = Some p"
    by (simp add: run_append reach)
  with answers_locker [OF caller] have q: "q = p" by simp
  from fails have "snd (resumeTask pid w t) = Rejected err"
    by (auto simp: resumeTask_def optimisticRenameOverwrite_def)
  then have rej: "promises (resume pid w p s) ! p = Rejected err"
    using lt pend by (simp add: resume_pending)
  have "p < length (promises (resume pid w p s))" using lt by (simp add: length_resume)
  then have "promises (run pid as' (resume pid w p s)) ! p = promises (resume pid w p s) ! p"
    by (rule settled_run) (simp add: rej)
  with rej have "promises (run pid ?all newSession) ! p = Rejected err"
    by (simp add: run_append reach)
  with q show ?thesis by simp
qed

text \<open>
  The example: \<open>writeFile\<close> is refused with \<open>EACCES\<close>; one caller came before, one after.
\<close>

theorem fatal_error_reaches_every_caller_witness:
  "(dest1, 0) \<in> set (answers 4242
        ([callB1, Resume (missWorld 1000) 0] @ Resume (denyWorld 1005) 0 # [callB1]) newSession)
   \<and> promises (run 4242
        ([callB1, Resume (missWorld 1000) 0] @ Resume (denyWorld 1005) 0 # [callB1]) newSession) ! 0
       = Rejected eacces"
proof -
  let ?t = "taskB1 (AwaitWriteFile temp1)"
  let ?s = "exSession (Pending ?t) [Stat dest1, WriteFile temp1 B1 (Some 420)]"
  have reach: "?s = run 4242 [callB1, Resume (missWorld 1000) 0] newSession"
    by (simp add: example_eval taskB1_sel)
  have lt: "0 < length (promises ?s)" by (simp add: exSession_sel)
  have pend: "promises ?s ! 0 = Pending ?t" by (simp add: exSession_sel)
  have fails: "(t_frame ?t = AwaitWriteFile temp1
        \<and> writeFile (denyWorld 1005) temp1 (t_buffer ?t) (t_mode ?t) = Inl eacces)
     \<or> (t_frame ?t = AwaitRename temp1 0
        \<and> renameOverwrite (denyWorld 1005) temp1 (t_fileDest ?t) = Inl eacces
        \<and> (code eacces \<noteq> Some ''ENOENT'' \<or> \<not> existsSync (denyWorld 1005) (t_fileDest ?t)))"
    by (simp add: taskB1_sel denyWorld_def constWorld_def)
  have caller: "(t_fileDest ?t, 0) \<in> set (answers 4242
        ([callB1, Resume (missWorld 1000) 0] @ Resume (denyWorld 1005) 0 # [callB1]) newSession)"
    by (simp add: example_eval taskB1_sel)
  show ?thesis
    using fatal_error_reaches_every_caller [OF reach lt pend fails caller] caller
    by (simp add: taskB1_sel)
qed

text \<open>
  \<^bold>\<open>C7\<close>. When \<open>writeFile\<close> has succeeded, the function reads \<open>Date.now()\<close> and then
  starts \<open>renameOverwrite\<close>, in this order and in one step; when the rename later
  succeeds or ends in the tolerated race, the promise is fulfilled with the timestamp
  read before the rename, not with the time at which the rename ended.
\<close>

theorem birthtime_read_between_write_and_rename:
  assumes reach: "s = run pid as0 newSession"
    and lt: "p < length (promises s)" and pend: "promises s ! p = Pending t"
    and frame: "t_frame t = AwaitWriteFile temp"
    and written: "writeFile w1 temp (t_buffer t) (t_mode t) = Inr ()"
    and s1: "s1 = resume pid w1 p s"
    and others: "noResume p as"
    and s2: "s2 = resume pid w2 p (run pid as s1)"
    and committed: "renameOverwrite w2 temp (t_fileDest t) = Inr ()
       \<or> (\<exists>err. renameOverwrite w2 temp (t_fileDest t) = Inl err
             \<and> code err = Some ''ENOENT'' \<and> existsSync w2 (t_fileDest t))"
  shows "trace s1 = trace s @ [(t_fileDest t, DateNow (now w1)),
                              (t_fileDest t, RenameOverwrite temp (t_fileDest t))]
       \<and> promises s1 ! p = Pending (t\<lparr>t_frame := AwaitRename temp (now w1)\<rparr>)
       \<and> promises s2 ! p = Fulfilled (now w1)"
proof -
  let ?t1 = "t\<lparr>t_frame := AwaitRename temp (now w1)\<rparr>"
  have cs: "consistent s" unfolding reach using consistent_newSession by (rule consistent_run)
  have rt1: "resumeTask pid w1 t =
      ([DateNow (now w1), RenameOverwrite temp (t_fileDest t)], Pending ?t1)"
    using frame written by (simp add: resumeTask_def Let_def)
  have tr1: "trace s1 = trace s @ [(t_fileDest t, DateNow (now w1)),
                              (t_fileDest t, RenameOverwrite temp (t_fileDest t))]"
    and pend1: "promises s1 ! p = Pending ?t1" and lt1: "p < length (promises s1)"
    using lt pend rt1 by (simp_all add: s1 resume_pending length_resume)
  have cs1: "consistent s1" unfolding s1 using cs by (rule consistent_resume)
  let ?r = "run pid as s1"
  have r: "promises ?r ! p = Pending ?t1" "p < length (promises ?r)"
    using others_run [OF cs1 lt1 pend1 others, of pid] by simp_all
  from committed have "snd (resumeTask pid w2 ?t1) = Fulfilled (now w1)"
    by (auto simp: resumeTask_def optimisticRenameOverwrite_def)
  then have "promises s2 ! p = Fulfilled (now w1)"
    using r by (simp add: s2 resume_pending)
  with tr1 pend1 show ?thesis by simp
qed

text \<open>
  The example: the write ends at \<open>1005\<close>, the rename ends in the race at \<open>1009\<close>.
\<close>

theorem birthtime_read_between_write_and_rename_witness:
  "promises (resume 4242 (raceWorld 1009) 0 (run 4242 [callB1]
      (resume 4242 (missWorld 1005) 0
        (exSession (Pending (taskB1 (AwaitWriteFile temp1)))
           [Stat dest1, WriteFile temp1 B1 (Some 420)])))) ! 0 = Fulfilled 1005
   \<and> now (raceWorld 1009) = 1009"
proof -
  let ?t = "taskB1 (AwaitWriteFile temp1)"
  let ?s = "exSession (Pending ?t) [Stat dest1, WriteFile temp1 B1 (Some 420)]"
  have reach: "?s = run 4242 [callB1, Resume (missWorld 1000) 0] newSession"
    by (simp add: example_eval taskB1_sel)
  have lt: "0 < length (promises ?s)" by (simp add: exSession_sel)
  have pend: "promises ?s ! 0 = Pending ?t" by (simp add: exSession_sel)
  have frame: "t_frame ?t = AwaitWriteFile temp1" by (simp add: taskB1_sel)
  have written: "writeFile (missWorld 1005) temp1 (t_buffer ?t) (t_mode ?t) = Inr ()"
    by (simp add: missWorld_def constWorld_def)
  have quiet: "noResume 0 [callB1]" by (simp add: callB1_def)
  have committed: "renameOverwrite (raceWorld 1009) temp1 (t_fileDest ?t) = Inr ()
       \<or> (\<exists>err. renameOverwrite (raceWorld 1009) temp1 (t_fileDest ?t) = Inl err
             \<and> code err = Some ''ENOENT'' \<and> existsSync (raceWorld 1009) (t_fileDest ?t))"
    by (simp add: raceWorld_def constWorld_def enoent_def)
  show ?thesis
    using birthtime_read_between_write_and_rename
      [OF reach lt pend frame written refl quiet refl committed]
    by (simp add: missWorld_def raceWorld_def constWorld_def)
qed

text \<open>
  \<^bold>\<open>C8\<close>. When \<open>fs.stat\<close> fails, with any error, \<open>existsSame\<close> returns \<open>false\<close>
  and throws nothing; the function waiting for it then computes the temporary name and
  starts \<open>writeFile\<close>, and its promise stays pending.
\<close>

theorem existsSame_stat_error_is_false:
  assumes "stat w filename = Inl err"
  shows "existsSame w filename integ = Return False
       \<and> (t_frame t = AwaitStat \<and> t_fileDest t = filename \<longrightarrow>
            resumeTask pid w t =
              ([WriteFile (pathTemp pid filename) (t_buffer t) (t_mode t)],
               Pending (t\<lparr>t_frame := AwaitWriteFile (pathTemp pid filename)\<rparr>)))"
  using assms by (simp add: existsSame_def resumeTask_def afterExistsSame_def Let_def)

text \<open>
  The example: the destination does not exist.
\<close>

theorem existsSame_stat_error_is_false_witness:
  "stat (missWorld 1000) dest1 = Inl enoent
   \<and> existsSame (missWorld 1000) dest1 ''sha512-d1'' = Return False
   \<and> resumeTask 4242 (missWorld 1000) (taskB1 AwaitStat)
       = ([WriteFile temp1 B1 (Some 420)], Pending (taskB1 (AwaitWriteFile temp1)))"
proof -
  have h: "stat (missWorld 1000) dest1 = Inl enoent"
    by (simp add: missWorld_def constWorld_def)
  show ?thesis
    using existsSame_stat_error_is_false [OF h, of "''sha512-d1''" "taskB1 AwaitStat" 4242] h
    by (simp add: taskB1_sel pathTemp_dest1)
qed

text \<open>
  \<^bold>\<open>C9\<close>. Once the locker has an entry for an absolute destination path, every later
  call whose store directory and key join to that path returns the entry's promise
  and leaves the session as it is, whatever buffer, mode and integrity it passes:
  they are not written, not hashed and not rejected.
\<close>

theorem dedup_key_is_destination_path:
  assumes "locker s (path_join cafsDir fileDest) = Some p"
    and "path_join cafsDir' fileDest' = path_join cafsDir fileDest"
  shows "writeBufferToCafs (run pid as s) cafsDir' buf' fileDest' md' integ' = (p, run pid as s)"
proof -
  have "locker (run pid as s) (path_join cafsDir' fileDest') = Some p"
    using assms by (simp add: locker_run)
  then show ?thesis by (rule call_cached)
qed

text \<open>
  The example: another buffer, mode and integrity, and the same path split differently.
\<close>

theorem dedup_key_is_destination_path_witness:
  "path_join ''/store/ab'' ''cd1234'' = path_join ''/store'' ''ab/cd1234''
   \<and> writeBufferToCafs
        (run 4242 (tl writeB1) (exSession (Pending (taskB1 AwaitStat)) [Stat dest1]))
        ''/store/ab'' [255] ''cd1234'' None ''sha512-other''
       = (0, run 4242 (tl writeB1) (exSession (Pending (taskB1 AwaitStat)) [Stat dest1]))"
proof -
  have h: "locker (exSession (Pending (taskB1 AwaitStat)) [Stat dest1])
             (path_join ''/store'' ''ab/cd1234'') = Some 0"
    by (simp add: path_join_dest1 exSession_sel)
  have same: "path_join ''/store/ab'' ''cd1234'' = path_join ''/store'' ''ab/cd1234''"
    by (simp add: path_eval)
  show ?thesis
    using dedup_key_is_destination_path [OF h same] same by blast
qed

text \<open>
  \<^bold>\<open>C10\<close>. A rejected promise stays in the locker: after any further schedule, a call
  for its destination returns the same promise, still rejected with the same error, and
  leaves the session as it is, so neither the check nor the write is run again.
\<close>

theorem failed_write_is_cached:
  assumes "locker s (path_join cafsDir fileDest) = Some p"
    and "p < length (promises s)" and "promises s ! p = Rejected err"
  shows "writeBufferToCafs (run pid as s) cafsDir buf fileDest md integ = (p, run pid as s)
       \<and> promises (run pid as s) ! p = Rejected err"
proof -
  have "locker (run pid as s) (path_join cafsDir fileDest) = Some p"
    using assms(1) by (rule locker_run)
  then have "writeBufferToCafs (run pid as s) cafsDir buf fileDest md integ = (p, run pid as s)"
    by (rule call_cached)
  moreover have "promises (run pid as s) ! p = promises s ! p"
    using assms(2) by (rule settled_run) (simp add: assms(3))
  ultimately show ?thesis using assms(3) by simp
qed

text \<open>
  The example: the write of \<open>B1\<close> is refused; later the store would accept it.
\<close>

theorem failed_write_is_cached_witness:
  "run 4242 [callB1, Resume (missWorld 1000) 0, Resume (denyWorld 1005) 0] newSession
     = exSession (Rejected eacces) [Stat dest1, WriteFile temp1 B1 (Some 420)]
   \<and> writeBufferToCafs
        (run 4242 [Resume (missWorld 2000) 0, callB1]
           (exSession (Rejected eacces) [Stat dest1, WriteFile temp1 B1 (Some 420)]))
        ''/store'' B1 ''ab/cd1234'' (Some 420) ''sha512-d1''
       = (0, run 4242 [Resume (missWorld 2000) 0, callB1]
               (exSession (Rejected eacces) [Stat dest1, WriteFile temp1 B1 (Some 420)]))
   \<and> promises (run 4242 [Resume (missWorld 2000) 0, callB1]
           (exSession (Rejected eacces) [Stat dest1, WriteFile temp1 B1 (Some 420)])) ! 0
       = Rejected eacces"
proof -
  let ?s = "exSession (Rejected eacces) [Stat dest1, WriteFile temp1 B1 (Some 420)]"
  have run: "run 4242 [callB1, Resume (missWorld 1000) 0, Resume (denyWorld 1005) 0] newSession = ?s"
    by (simp add: example_eval taskB1_sel)
  have h: "locker ?s (path_join ''/store'' ''ab/cd1234'') = Some 0"
    by (simp add: path_join_dest1 exSession_sel)
  have lt: "0 < length (promises ?s)" by (simp add: exSession_sel)
  have rej: "promises ?s ! 0 = Rejected eacces" by (simp add: exSession_sel)
  show ?thesis
    using failed_write_is_cached [OF h lt rej] run by blast
qed

end
